theory Spec2Isabelle
  imports Main "HOL-Library.Word"
begin

unbundle bit_operations_syntax

section \<open>Data model\<close>

text \<open>
  The C types of \<open>crc32c.c\<close>: \<open>uint8_t\<close>, \<open>uint16_t\<close>, \<open>uint32_t\<close> and
  \<open>uint64_t\<close> are words of that width. A \<open>const char *\<close> is an address into the
  readable memory, which is a function from addresses to bytes; \<open>size_t\<close> lengths and
  addresses are natural numbers (no length of the source is ever incremented, and
  \<open>len--\<close> is only evaluated on its way down to zero, so no wrap-around is observable).
\<close>

type_synonym u8 = "8 word"
type_synonym u16 = "16 word"
type_synonym u32 = "32 word"
type_synonym u64 = "64 word"
type_synonym memory = "nat \<Rightarrow> u8"

text \<open>\<open>crc32c.h\<close>: the enum \<open>crc32c_impl\<close>.\<close>

datatype crc32c_impl = CRC32C_IMPL_AUTO | CRC32C_IMPL_HW | CRC32C_IMPL_SW

text \<open>
  What the translation unit is compiled for and runs on. The preprocessor symbols
  \<open>__x86_64__\<close> and \<open>__i386__\<close> select the target; the four \<open>_mm_crc32_*\<close>
  intrinsics, \<open>__builtin_cpu_supports("sse4.2")\<close> and \<open>getenv("CRC32C_FORCE")\<close> are
  provided by the machine and the process environment, so they are fields of the host.
\<close>

datatype arch = ARCH_X86_64 | ARCH_I386 | ARCH_OTHER

record host =
  target :: arch
  builtin_cpu_supports_sse42 :: int
  mm_crc32_u8 :: "u32 \<Rightarrow> u8 \<Rightarrow> u32"
  mm_crc32_u16 :: "u32 \<Rightarrow> u16 \<Rightarrow> u32"
  mm_crc32_u32 :: "u32 \<Rightarrow> u32 \<Rightarrow> u32"
  mm_crc32_u64 :: "u64 \<Rightarrow> u64 \<Rightarrow> u64"
  getenv_CRC32C_FORCE :: "string option"

text \<open>\<open>#if defined(__i386__) || defined(__x86_64__)\<close>\<close>

definition X86_ONLY :: "host \<Rightarrow> bool" where
  "X86_ONLY p = (target p = ARCH_I386 \<or> target p = ARCH_X86_64)"

text \<open>The dispatch state: the three file-scope variables.\<close>

record dispatch =
  g_crc32c_once :: bool
  g_force_sw :: int
  g_impl :: crc32c_impl

text \<open>The state a process starts in: \<open>PTHREAD_ONCE_INIT\<close>, \<open>0\<close>, \<open>CRC32C_IMPL_SW\<close>.\<close>

definition dispatch_init :: dispatch where
  "dispatch_init = \<lparr>g_crc32c_once = False, g_force_sw = 0, g_impl = CRC32C_IMPL_SW\<rparr>"

section \<open>The software engine\<close>

definition POLY :: u32 where
  "POLY = 0x82f63b78"

text \<open>The body of the inner loop: \<open>h = h & 1 ? (h >> 1) ^ POLY : h >> 1\<close>.\<close>

definition crc32c_sw_bit :: "u32 \<Rightarrow> u32" where
  "crc32c_sw_bit h = (if h AND 1 \<noteq> 0 then drop_bit 1 h XOR POLY else drop_bit 1 h)"

text \<open>\<open>for (int k = 0; k < 8; k++) ...\<close>, entered with the current \<open>k\<close>.\<close>

function crc32c_sw_for :: "int \<Rightarrow> u32 \<Rightarrow> u32" where
  "crc32c_sw_for k h = (if k < 8 then crc32c_sw_for (k + 1) (crc32c_sw_bit h) else h)"
  by pat_completeness auto
termination
  by (relation "measure (\<lambda>(k, h). nat (8 - k))") auto

declare crc32c_sw_for.simps [simp del]

text \<open>\<open>while (len--) { h ^= *s++; for ... }\<close>\<close>

fun crc32c_sw_while :: "memory \<Rightarrow> nat \<Rightarrow> nat \<Rightarrow> u32 \<Rightarrow> u32" where
  "crc32c_sw_while m s 0 h = h"
| "crc32c_sw_while m s (Suc len) h =
     crc32c_sw_while m (Suc s) len (crc32c_sw_for 0 (h XOR ucast (m s)))"

definition crc32c_sw :: "memory \<Rightarrow> nat \<Rightarrow> nat \<Rightarrow> u32" where
  "crc32c_sw m src len = NOT (crc32c_sw_while m src len (NOT 0))"

section \<open>The hardware engine\<close>

text \<open>
  \<open>memcpy(&v, s, sizeof(v))\<close> into an unsigned integer on x86, a little-endian
  machine: the byte at the lowest address is the least significant one.
\<close>

fun memcpy_le :: "memory \<Rightarrow> nat \<Rightarrow> nat \<Rightarrow> 'a::len word" where
  "memcpy_le m s 0 = 0"
| "memcpy_le m s (Suc n) = ucast (m s) OR push_bit 8 (memcpy_le m (Suc s) n)"

text \<open>\<open>while (len > 7) { ... hh = _mm_crc32_u64(hh, v); s += 8; len -= 8; }\<close>\<close>

function crc32c_hw_while :: "host \<Rightarrow> memory \<Rightarrow> nat \<Rightarrow> nat \<Rightarrow> u64 \<Rightarrow> nat \<times> nat \<times> u64" where
  "crc32c_hw_while p m s len hh =
     (if len > 7
      then crc32c_hw_while p m (s + 8) (len - 8) (mm_crc32_u64 p hh (memcpy_le m s 8))
      else (s, len, hh))"
  by pat_completeness auto
termination
  by (relation "measure (\<lambda>(p, m, s, len, hh). len)") auto

declare crc32c_hw_while.simps [simp del]

text \<open>
  The three tail steps of \<open>crc32c_hw_body\<close>, from \<open>if (len > 3)\<close> to the last
  \<open>_mm_crc32_u8\<close>: each is an \<open>if\<close> statement, run at most once.
\<close>

definition crc32c_hw_tail :: "host \<Rightarrow> memory \<Rightarrow> nat \<Rightarrow> nat \<Rightarrow> u32 \<Rightarrow> u32" where
  "crc32c_hw_tail p m s1 len1 h1 =
     (let (s2, len2, h2) = (if len1 > 3
                            then (s1 + 4, len1 - 4, mm_crc32_u32 p h1 (memcpy_le m s1 4))
                            else (s1, len1, h1));
          (s3, len3, h3) = (if len2 > 1
                            then (s2 + 2, len2 - 2, mm_crc32_u16 p h2 (memcpy_le m s2 2))
                            else (s2, len2, h2))
      in if len3 > 0 then mm_crc32_u8 p h3 (memcpy_le m s3 1) else h3)"

text \<open>
  \<open>crc32c_hw_body\<close>: \<open>uint64_t hh = ~0u\<close>, the 8-byte loop (compiled only under
  \<open>__x86_64__\<close>), \<open>uint32_t h = (uint32_t)hh\<close>, the tail steps and \<open>return ~h\<close>.
\<close>

definition crc32c_hw_body :: "host \<Rightarrow> memory \<Rightarrow> nat \<Rightarrow> nat \<Rightarrow> u32" where
  "crc32c_hw_body p m src len0 =
     (let hh0 = (ucast (NOT 0 :: u32) :: u64);
          (s1, len1, hh) = (if target p = ARCH_X86_64
                            then crc32c_hw_while p m src len0 hh0
                            else (src, len0, hh0))
      in NOT (crc32c_hw_tail p m s1 len1 (ucast hh)))"

text \<open>\<open>crc32c_hw\<close>: the body under \<open>X86_ONLY\<close>, the software engine otherwise.\<close>

definition crc32c_hw :: "host \<Rightarrow> memory \<Rightarrow> nat \<Rightarrow> nat \<Rightarrow> u32" where
  "crc32c_hw p m src len =
     (if X86_ONLY p then crc32c_hw_body p m src len else crc32c_sw m src len)"

section \<open>Dispatch\<close>

definition cpu_has_hw_crc :: "host \<Rightarrow> int" where
  "cpu_has_hw_crc p = (if X86_ONLY p then builtin_cpu_supports_sse42 p else 0)"

definition crc32c_init :: "host \<Rightarrow> dispatch \<Rightarrow> dispatch" where
  "crc32c_init p s =
     (if g_force_sw s \<noteq> 0 then s\<lparr>g_impl := CRC32C_IMPL_SW\<rparr>
      else
        let s1 = (case getenv_CRC32C_FORCE p of
                    None \<Rightarrow> s
                  | Some env \<Rightarrow>
                      if env = ''sw'' then s\<lparr>g_force_sw := 1\<rparr>
                      else if env = ''hw'' then
                        (let s0 = s\<lparr>g_force_sw := 0\<rparr>
                         in if cpu_has_hw_crc p = 0 then s0\<lparr>g_force_sw := 1\<rparr> else s0)
                      else s)
        in if g_force_sw s1 = 0 \<and> cpu_has_hw_crc p \<noteq> 0
           then s1\<lparr>g_impl := CRC32C_IMPL_HW\<rparr>
           else s1\<lparr>g_impl := CRC32C_IMPL_SW\<rparr>)"

text \<open>
  \<open>pthread_once(&g_crc32c_once, crc32c_init)\<close> as one thread sees it: the first call
  runs the initializer and marks the guard, every later call does nothing.
\<close>

definition pthread_once_init :: "host \<Rightarrow> dispatch \<Rightarrow> dispatch" where
  "pthread_once_init p s =
     (if g_crc32c_once s then s else (crc32c_init p s)\<lparr>g_crc32c_once := True\<rparr>)"

definition crc32c_impl_name :: "host \<Rightarrow> dispatch \<Rightarrow> string \<times> dispatch" where
  "crc32c_impl_name p s =
     (let s1 = pthread_once_init p s
      in (if g_impl s1 = CRC32C_IMPL_HW then ''hw'' else ''sw'', s1))"

definition crc32c_hw_available :: "host \<Rightarrow> dispatch \<Rightarrow> int \<times> dispatch" where
  "crc32c_hw_available p s = (cpu_has_hw_crc p, s)"

definition crc32c_force_software :: "host \<Rightarrow> dispatch \<Rightarrow> dispatch" where
  "crc32c_force_software p s =
     (let s1 = s\<lparr>g_force_sw := 1\<rparr>;
          s2 = pthread_once_init p s1
      in s2\<lparr>g_impl := CRC32C_IMPL_SW\<rparr>)"

definition crc32c :: "host \<Rightarrow> dispatch \<Rightarrow> memory \<Rightarrow> nat \<Rightarrow> nat \<Rightarrow> u32 \<times> dispatch" where
  "crc32c p s m src len =
     (let s1 = pthread_once_init p s
      in if g_impl s1 = CRC32C_IMPL_HW
         then (if X86_ONLY p then (crc32c_hw_body p m src len, s1)
               else (crc32c_sw m src len, s1))
         else (crc32c_sw m src len, s1))"

section \<open>The self-check\<close>

text \<open>
  An object of the program as a memory of its own, addressed from its first byte.
  The engines read only the \<open>len\<close> bytes from \<open>src\<close> on, so what lies
  beyond the object is never looked at.
\<close>

definition object_memory :: "u8 list \<Rightarrow> memory" where
  "object_memory bs a = (if a < length bs then bs ! a else 0)"

text \<open>The string literal \<open>"123456789"\<close> with its terminator; \<open>strlen\<close> of it is 9.\<close>

definition k_vec :: string where
  "k_vec = ''123456789''"

definition k_vec_memory :: memory where
  "k_vec_memory = object_memory (map of_char k_vec @ [0])"

definition strlen_k_vec :: nat where
  "strlen_k_vec = length k_vec"

text \<open>\<open>uint8_t pattern[512]\<close> with \<open>pattern[i] = (uint8_t)(i * 3 + 1)\<close>.\<close>

definition sizeof_pattern :: nat where
  "sizeof_pattern = 512"

definition pattern :: "u8 list" where
  "pattern = map (\<lambda>i. of_nat (i * 3 + 1)) [0..<sizeof_pattern]"

definition pattern_memory :: memory where
  "pattern_memory = object_memory pattern"

definition offsets :: "nat list" where
  "offsets = [0, 1, 2, 3, 4, 7, 8, 15, 31, 63]"

definition lengths :: "nat list" where
  "lengths = [0, 1, 2, 3, 4, 7, 8, 15, 16, 31, 32, 63, 64, 255]"

text \<open>The inner loop over \<open>li\<close>, for a fixed \<open>oi\<close>, threading \<open>failures\<close>.\<close>

function selfcheck_li :: "host \<Rightarrow> nat \<Rightarrow> nat \<Rightarrow> int \<Rightarrow> int" where
  "selfcheck_li p oi li failures =
     (if li < length lengths then
        (let off = offsets ! oi; len = lengths ! li
         in if off + len > sizeof_pattern then selfcheck_li p oi (li + 1) failures
            else
              let hw_v = crc32c_hw_body p pattern_memory off len;
                  sw_v = crc32c_sw pattern_memory off len
              in selfcheck_li p oi (li + 1) (if hw_v \<noteq> sw_v then failures + 1 else failures))
      else failures)"
  by pat_completeness auto
termination
  by (relation "measure (\<lambda>(p, oi, li, failures). length lengths - li)") auto

declare selfcheck_li.simps [simp del]

text \<open>The outer loop over \<open>oi\<close>.\<close>

function selfcheck_oi :: "host \<Rightarrow> nat \<Rightarrow> int \<Rightarrow> int" where
  "selfcheck_oi p oi failures =
     (if oi < length offsets then selfcheck_oi p (oi + 1) (selfcheck_li p oi 0 failures)
      else failures)"
  by pat_completeness auto
termination
  by (relation "measure (\<lambda>(p, oi, failures). length offsets - oi)") auto

declare selfcheck_oi.simps [simp del]

definition crc32c_selfcheck :: "host \<Rightarrow> dispatch \<Rightarrow> int \<times> dispatch" where
  "crc32c_selfcheck p s =
     (if X86_ONLY p then
        (let s1 = pthread_once_init p s
         in if g_impl s1 \<noteq> CRC32C_IMPL_HW then (0, s1)
            else
              let hw = crc32c_hw_body p k_vec_memory 0 strlen_k_vec;
                  sw = crc32c_sw k_vec_memory 0 strlen_k_vec;
                  failures0 = (if hw \<noteq> sw then 1 else 0);
                  failures = selfcheck_oi p 0 failures0
              in if failures \<noteq> 0 then (- 1, crc32c_force_software p s1) else (0, s1))
      else (0, s))"

text \<open>
  A combination of offset and length that the loop does not skip and on which the two
  engines differ.
\<close>

definition pair_mismatch :: "host \<Rightarrow> nat \<Rightarrow> nat \<Rightarrow> bool" where
  "pair_mismatch p off len =
     (off + len \<le> sizeof_pattern \<and>
      crc32c_hw_body p pattern_memory off len \<noteq> crc32c_sw pattern_memory off len)"

section \<open>Sequences of public operations\<close>

datatype op =
  OpImplName
| OpHwAvailable
| OpForceSoftware
| OpSelfcheck
| OpCrc32c memory nat nat

fun step :: "host \<Rightarrow> dispatch \<Rightarrow> op \<Rightarrow> dispatch" where
  "step p s OpImplName = snd (crc32c_impl_name p s)"
| "step p s OpHwAvailable = snd (crc32c_hw_available p s)"
| "step p s OpForceSoftware = crc32c_force_software p s"
| "step p s OpSelfcheck = snd (crc32c_selfcheck p s)"
| "step p s (OpCrc32c m src len) = snd (crc32c p s m src len)"

definition run :: "host \<Rightarrow> dispatch \<Rightarrow> op list \<Rightarrow> dispatch" where
  "run p s ops = foldl (step p) s ops"

text \<open>The states a process can be in: the initial one and what calls make of it.\<close>

inductive reachable :: "host \<Rightarrow> dispatch \<Rightarrow> bool" for p :: host where
  reachable_init: "reachable p dispatch_init"
| reachable_step: "reachable p s \<Longrightarrow> reachable p (step p s c)"

section \<open>The CRC32 instruction and concrete hosts\<close>

text \<open>
  The \<open>CRC32\<close> instruction of SSE4.2 behind the \<open>_mm_crc32_*\<close> intrinsics, as
  the Intel Software Developer's Manual gives its operation for an \<open>n\<close>-bit source:

  \<open>TEMP1 := BIT_REFLECT(SRC); TEMP2 := BIT_REFLECT32(DEST[31:0]);\<close>
  \<open>TEMP3 := TEMP1 << 32; TEMP4 := TEMP2 << n; TEMP5 := TEMP3 XOR TEMP4;\<close>
  \<open>TEMP6 := TEMP5 MOD2 11EDC6F41H; DEST[31:0] := BIT_REFLECT32(TEMP6)\<close>

  with the upper half of a 64-bit destination cleared. Bit vectors of every width are
  non-negative integers here. \<open>MOD2\<close> is the remainder of the polynomial division over
  GF(2), computed by long division from the top bit down.
\<close>

fun BIT_REFLECT :: "nat \<Rightarrow> int \<Rightarrow> int" where
  "BIT_REFLECT 0 x = 0"
| "BIT_REFLECT (Suc n) x = push_bit n (of_bool (bit x 0)) OR BIT_REFLECT n (drop_bit 1 x)"

fun MOD2 :: "nat \<Rightarrow> int \<Rightarrow> int" where
  "MOD2 0 t = t"
| "MOD2 (Suc k) t = MOD2 k (if bit t (32 + k) then t XOR push_bit k 0x11EDC6F41 else t)"

definition sse42_crc32 :: "nat \<Rightarrow> int \<Rightarrow> int \<Rightarrow> int" where
  "sse42_crc32 n dest src =
     (let TEMP1 = BIT_REFLECT n src;
          TEMP2 = BIT_REFLECT 32 dest;
          TEMP3 = push_bit 32 TEMP1;
          TEMP4 = push_bit n TEMP2;
          TEMP5 = TEMP3 XOR TEMP4;
          TEMP6 = MOD2 n TEMP5
      in BIT_REFLECT 32 TEMP6)"

definition sse42_crc32_u8 :: "u32 \<Rightarrow> u8 \<Rightarrow> u32" where
  "sse42_crc32_u8 crc v = word_of_int (sse42_crc32 8 (uint crc) (uint v))"

definition sse42_crc32_u16 :: "u32 \<Rightarrow> u16 \<Rightarrow> u32" where
  "sse42_crc32_u16 crc v = word_of_int (sse42_crc32 16 (uint crc) (uint v))"

definition sse42_crc32_u32 :: "u32 \<Rightarrow> u32 \<Rightarrow> u32" where
  "sse42_crc32_u32 crc v = word_of_int (sse42_crc32 32 (uint crc) (uint v))"

definition sse42_crc32_u64 :: "u64 \<Rightarrow> u64 \<Rightarrow> u64" where
  "sse42_crc32_u64 crc v = word_of_int (sse42_crc32 64 (uint (ucast crc :: u32)) (uint v))"

text \<open>A host whose intrinsics are this instruction.\<close>

definition sse42_conformant :: "host \<Rightarrow> bool" where
  "sse42_conformant p =
     (mm_crc32_u8 p = sse42_crc32_u8 \<and> mm_crc32_u16 p = sse42_crc32_u16 \<and>
      mm_crc32_u32 p = sse42_crc32_u32 \<and> mm_crc32_u64 p = sse42_crc32_u64)"

text \<open>
  Three machines: a 64-bit build on a processor with SSE4.2 and nothing in the
  environment; the same processor under a 32-bit build; and a 64-bit build on a
  processor that reports SSE4.2 but whose CRC32 instructions leave the accumulator as
  it was.
\<close>

definition sse42_host :: host where
  "sse42_host =
     \<lparr>target = ARCH_X86_64, builtin_cpu_supports_sse42 = 1,
      mm_crc32_u8 = sse42_crc32_u8, mm_crc32_u16 = sse42_crc32_u16,
      mm_crc32_u32 = sse42_crc32_u32, mm_crc32_u64 = sse42_crc32_u64,
      getenv_CRC32C_FORCE = None\<rparr>"

definition i386_host :: host where
  "i386_host = sse42_host\<lparr>target := ARCH_I386\<rparr>"

definition faulty_host :: host where
  "faulty_host =
     \<lparr>target = ARCH_X86_64, builtin_cpu_supports_sse42 = 1,
      mm_crc32_u8 = (\<lambda>crc v. crc), mm_crc32_u16 = (\<lambda>crc v. crc),
      mm_crc32_u32 = (\<lambda>crc v. crc), mm_crc32_u64 = (\<lambda>crc v. crc),
      getenv_CRC32C_FORCE = None\<rparr>"

section \<open>The checksum as the specification words it\<close>

text \<open>
  The reversed-polynomial bit-serial CRC-32C: polynomial \<open>0x82F63B78\<close>, a register
  that starts as all ones, for each byte an XOR into the register followed by 8
  shift-and-XOR steps, and a final bitwise NOT.
\<close>

definition shift_xor :: "u32 \<Rightarrow> u32" where
  "shift_xor r = (if bit r 0 then drop_bit 1 r XOR 0x82F63B78 else drop_bit 1 r)"

definition crc32c_byte :: "u32 \<Rightarrow> u8 \<Rightarrow> u32" where
  "crc32c_byte r b = (shift_xor ^^ 8) (r XOR ucast b)"

definition crc32c_reference :: "u8 list \<Rightarrow> u32" where
  "crc32c_reference bs = NOT (foldl crc32c_byte 0xFFFFFFFF bs)"

text \<open>The \<open>len\<close> bytes of the buffer at \<open>src\<close>.\<close>

definition buffer :: "memory \<Rightarrow> nat \<Rightarrow> nat \<Rightarrow> u8 list" where
  "buffer m src len = map m [src..<src + len]"

section \<open>Auxiliary notions of the proofs\<close>

text \<open>
  One shift-and-XOR step on an integer, a register of unbounded width: the data bits
  still to come sit above bit 31 and move down as the register is shifted.
\<close>

definition shift_xor_int :: "int \<Rightarrow> int" where
  "shift_xor_int w = drop_bit 1 w XOR (if bit w 0 then 0x82F63B78 else 0)"

text \<open>The \<open>n\<close> bytes at \<open>s\<close> as one little-endian integer.\<close>

fun load_int :: "memory \<Rightarrow> nat \<Rightarrow> nat \<Rightarrow> int" where
  "load_int m s 0 = 0"
| "load_int m s (Suc n) = uint (m s) XOR push_bit 8 (load_int m (Suc s) n)"

section \<open>The software engine computes the reference checksum\<close>

lemma and_1_neq_0_iff_bit: "(h AND 1 \<noteq> 0) = bit h 0" for h :: u32
  by (simp add: and_one_eq mod_2_eq_odd bit_0)

lemma crc32c_sw_bit_shift_xor: "crc32c_sw_bit h = shift_xor h"
  unfolding crc32c_sw_bit_def shift_xor_def POLY_def and_1_neq_0_iff_bit by simp

lemma crc32c_sw_for_funpow:
  "0 \<le> k \<Longrightarrow> k \<le> 8 \<Longrightarrow> crc32c_sw_for k h = (shift_xor ^^ nat (8 - k)) h"
proof (induction k h rule: crc32c_sw_for.induct)
  case (1 k h)
  show ?case
  proof (cases "k < 8")
    case True
    then have n: "nat (8 - k) = Suc (nat (8 - (k + 1)))"
      by simp
    from True "1.prems" have "crc32c_sw_for (k + 1) (crc32c_sw_bit h)
        = (shift_xor ^^ nat (8 - (k + 1))) (crc32c_sw_bit h)"
      by (intro "1.IH") simp_all
    with True show ?thesis
      by (subst crc32c_sw_for.simps) (simp add: n funpow_swap1 crc32c_sw_bit_shift_xor)
  next
    case False
    with "1.prems" have "k = 8"
      by simp
    then show ?thesis
      by (subst crc32c_sw_for.simps) simp
  qed
qed

lemma crc32c_sw_for_byte: "crc32c_sw_for 0 (h XOR ucast b) = crc32c_byte h b"
  by (simp add: crc32c_sw_for_funpow crc32c_byte_def)

lemma crc32c_sw_while_foldl:
  "crc32c_sw_while m s len h = foldl crc32c_byte h (buffer m s len)"
proof (induction len arbitrary: s h)
  case 0
  show ?case
    by (simp add: buffer_def)
next
  case (Suc len)
  have "[s..<s + Suc len] = s # [Suc s..<s + Suc len]"
    by (rule upt_conv_Cons) simp
  then have "buffer m s (Suc len) = m s # buffer m (Suc s) len"
    unfolding buffer_def by simp
  then show ?case
    by (simp add: Suc.IH crc32c_sw_for_byte)
qed

text \<open>
  C1. For every memory, address \<open>src\<close> and length \<open>len\<close>, \<open>crc32c_sw\<close> returns
  the CRC-32C of the \<open>len\<close> bytes at \<open>src\<close> as the bit-serial algorithm with the
  reversed polynomial \<open>0x82F63B78\<close> defines it: all-ones initial register, 8
  shift-and-XOR steps per byte, final bitwise NOT.
\<close>

theorem crc32c_sw_is_reference:
  "crc32c_sw m src len = crc32c_reference (buffer m src len)"
proof -
  have all_ones: "(0xFFFFFFFF :: u32) = NOT 0"
    by simp
  show ?thesis
    unfolding crc32c_sw_def crc32c_reference_def crc32c_sw_while_foldl all_ones ..
qed

section \<open>Dispatch state\<close>

lemma pthread_once_init_done: "g_crc32c_once s \<Longrightarrow> pthread_once_init p s = s"
  by (simp add: pthread_once_init_def)

lemma pthread_once_init_once: "g_crc32c_once (pthread_once_init p s)"
  by (simp add: pthread_once_init_def)

lemma crc32c_hw_while_short: "len \<le> 7 \<Longrightarrow> crc32c_hw_while p m s len hh = (s, len, hh)"
  by (subst crc32c_hw_while.simps) simp

lemma crc32c_hw_tail_zero: "crc32c_hw_tail p m s 0 h = h"
  by (simp add: crc32c_hw_tail_def)

lemma ucast_u64_u32: "(ucast (ucast h :: u64) :: u32) = h"
  by (rule bit_word_eqI) (simp add: bit_simps)

lemma crc32c_hw_body_zero: "crc32c_hw_body p m src 0 = 0"
  by (simp add: crc32c_hw_body_def crc32c_hw_while_short crc32c_hw_tail_zero Let_def
      ucast_u64_u32)

text \<open>
  C10. On a buffer of length zero every checksum entry point returns 0: the software
  engine, the hardware engine on every host, and the dispatching \<open>crc32c\<close> in every
  dispatch state.
\<close>

theorem zero_length_checksum:
  "crc32c_sw m src 0 = 0 \<and> crc32c_hw p m src 0 = 0 \<and> fst (crc32c p s m src 0) = 0"
  by (simp add: crc32c_sw_def crc32c_hw_def crc32c_def crc32c_hw_body_zero Let_def)

lemma crc32c_force_software_state:
  "crc32c_force_software p s =
     \<lparr>g_crc32c_once = True, g_force_sw = 1, g_impl = CRC32C_IMPL_SW\<rparr>"
  by (simp add: crc32c_force_software_def pthread_once_init_def crc32c_init_def Let_def)

text \<open>
  C8. Forcing software is idempotent: a second call leaves the state of the first, the
  implementation name is \<open>sw\<close> after one call and after two, and a checksum call
  after the second returns what \<open>crc32c_sw\<close> returns, for every input.
\<close>

theorem force_software_idempotent:
  "crc32c_force_software p (crc32c_force_software p s) = crc32c_force_software p s
   \<and> fst (crc32c_impl_name p (crc32c_force_software p s)) = ''sw''
   \<and> fst (crc32c_impl_name p (crc32c_force_software p (crc32c_force_software p s))) = ''sw''
   \<and> crc32c p (crc32c_force_software p (crc32c_force_software p s)) m src len
       = (crc32c_sw m src len, crc32c_force_software p s)"
  by (simp add: crc32c_force_software_state crc32c_impl_name_def crc32c_def
      pthread_once_init_def Let_def)

text \<open>
  C9. \<open>crc32c_hw_available\<close> passes the capability detector's answer through: the
  dispatch state (guard, force flag, selector) is returned as it was, and the answer is
  the same in every state, after any sequence of operations and after forcing software.
\<close>

theorem hw_available_passthrough:
  "fst (crc32c_hw_available p s) = cpu_has_hw_crc p
   \<and> snd (crc32c_hw_available p s) = s
   \<and> fst (crc32c_hw_available p (run p s ops)) = fst (crc32c_hw_available p s')
   \<and> fst (crc32c_hw_available p (crc32c_force_software p s)) = fst (crc32c_hw_available p s)"
  by (simp add: crc32c_hw_available_def)

lemma crc32c_init_impl:
  "g_impl (crc32c_init p s) =
     (if g_force_sw s = 0 \<and> getenv_CRC32C_FORCE p \<noteq> Some ''sw'' \<and> cpu_has_hw_crc p \<noteq> 0
      then CRC32C_IMPL_HW else CRC32C_IMPL_SW)"
  by (simp add: crc32c_init_def Let_def split: option.splits)

lemma step_latched:
  "g_crc32c_once s \<Longrightarrow> g_impl s = CRC32C_IMPL_SW \<Longrightarrow>
   g_crc32c_once (step p s c) \<and> g_impl (step p s c) = CRC32C_IMPL_SW"
  by (cases c)
    (simp_all add: crc32c_impl_name_def crc32c_hw_available_def crc32c_force_software_state
      crc32c_selfcheck_def crc32c_def pthread_once_init_done Let_def)

lemma run_latched:
  "g_crc32c_once s \<Longrightarrow> g_impl s = CRC32C_IMPL_SW \<Longrightarrow>
   g_crc32c_once (run p s ops) \<and> g_impl (run p s ops) = CRC32C_IMPL_SW"
  unfolding run_def
proof (induction ops arbitrary: s)
  case Nil
  then show ?case by simp
next
  case (Cons c ops)
  from step_latched [OF Cons.prems, of p c] show ?case
    by (simp add: Cons.IH)
qed

section \<open>The loops of the self-check\<close>

text \<open>
  The counter \<open>failures\<close> never decreases, and it increases over the loops iff some
  combination that is not skipped mismatches.
\<close>

lemma selfcheck_li_end: "length lengths \<le> li \<Longrightarrow> selfcheck_li p oi li f = f"
  by (subst selfcheck_li.simps) simp

lemma selfcheck_li_unfold:
  "li < length lengths \<Longrightarrow>
   selfcheck_li p oi li f =
     selfcheck_li p oi (Suc li)
       (if pair_mismatch p (offsets ! oi) (lengths ! li) then f + 1 else f)"
  by (subst selfcheck_li.simps) (simp add: Let_def pair_mismatch_def not_less)

lemma selfcheck_li_ge: "f \<le> selfcheck_li p oi li f"
proof (induction "length lengths - li" arbitrary: li f)
  case 0
  then show ?case
    by (simp add: selfcheck_li_end)
next
  case (Suc n)
  then have li: "li < length lengths" and n: "n = length lengths - Suc li"
    by simp_all
  let ?f = "if pair_mismatch p (offsets ! oi) (lengths ! li) then f + 1 else f"
  have "f \<le> ?f"
    by simp
  also have "?f \<le> selfcheck_li p oi (Suc li) ?f"
    by (rule Suc.hyps(1) [OF n])
  finally show ?case
    by (simp only: selfcheck_li_unfold [OF li])
qed

lemma selfcheck_li_gt_iff:
  "f < selfcheck_li p oi li f \<longleftrightarrow>
     (\<exists>j. li \<le> j \<and> j < length lengths \<and> pair_mismatch p (offsets ! oi) (lengths ! j))"
proof (induction "length lengths - li" arbitrary: li f)
  case 0
  then show ?case
    by (simp add: selfcheck_li_end)
next
  case (Suc n)
  then have li: "li < length lengths" and n: "n = length lengths - Suc li"
    by simp_all
  show ?case
  proof (cases "pair_mismatch p (offsets ! oi) (lengths ! li)")
    case True
    have "f < f + 1"
      by simp
    also have "f + 1 \<le> selfcheck_li p oi (Suc li) (f + 1)"
      by (rule selfcheck_li_ge)
    finally have "f < selfcheck_li p oi li f"
      by (simp add: selfcheck_li_unfold [OF li] True)
    moreover from True li have
      "\<exists>j. li \<le> j \<and> j < length lengths \<and> pair_mismatch p (offsets ! oi) (lengths ! j)"
      by blast
    ultimately show ?thesis
      by simp
  next
    case False
    have "f < selfcheck_li p oi li f \<longleftrightarrow> f < selfcheck_li p oi (Suc li) f"
      by (simp add: selfcheck_li_unfold [OF li] False)
    also have "\<dots> \<longleftrightarrow>
      (\<exists>j. Suc li \<le> j \<and> j < length lengths \<and> pair_mismatch p (offsets ! oi) (lengths ! j))"
      by (rule Suc.hyps(1) [OF n])
    also have "\<dots> \<longleftrightarrow>
      (\<exists>j. li \<le> j \<and> j < length lengths \<and> pair_mismatch p (offsets ! oi) (lengths ! j))"
      using False by (metis Suc_leD Suc_leI le_neq_implies_less)
    finally show ?thesis .
  qed
qed

lemma selfcheck_oi_end: "length offsets \<le> oi \<Longrightarrow> selfcheck_oi p oi f = f"
  by (subst selfcheck_oi.simps) simp

lemma selfcheck_oi_unfold:
  "oi < length offsets \<Longrightarrow>
   selfcheck_oi p oi f = selfcheck_oi p (Suc oi) (selfcheck_li p oi 0 f)"
  by (subst selfcheck_oi.simps) simp

lemma selfcheck_oi_ge: "f \<le> selfcheck_oi p oi f"
proof (induction "length offsets - oi" arbitrary: oi f)
  case 0
  then show ?case
    by (simp add: selfcheck_oi_end)
next
  case (Suc n)
  then have oi: "oi < length offsets" and n: "n = length offsets - Suc oi"
    by simp_all
  have "f \<le> selfcheck_li p oi 0 f"
    by (rule selfcheck_li_ge)
  also have "\<dots> \<le> selfcheck_oi p (Suc oi) (selfcheck_li p oi 0 f)"
    by (rule Suc.hyps(1) [OF n])
  finally show ?case
    by (simp only: selfcheck_oi_unfold [OF oi])
qed

lemma selfcheck_oi_gt_iff:
  "f < selfcheck_oi p oi f \<longleftrightarrow>
     (\<exists>i j. oi \<le> i \<and> i < length offsets \<and> j < length lengths \<and>
        pair_mismatch p (offsets ! i) (lengths ! j))"
proof (induction "length offsets - oi" arbitrary: oi f)
  case 0
  then show ?case
    by (simp add: selfcheck_oi_end)
next
  case (Suc n)
  then have oi: "oi < length offsets" and n: "n = length offsets - Suc oi"
    by simp_all
  let ?g = "selfcheck_li p oi 0 f"
  let ?row = "\<exists>j. j < length lengths \<and> pair_mismatch p (offsets ! oi) (lengths ! j)"
  let ?rest = "\<exists>i j. Suc oi \<le> i \<and> i < length offsets \<and> j < length lengths \<and>
        pair_mismatch p (offsets ! i) (lengths ! j)"
  have row: "f < ?g \<longleftrightarrow> ?row"
    by (simp add: selfcheck_li_gt_iff)
  have rest: "?g < selfcheck_oi p (Suc oi) ?g \<longleftrightarrow> ?rest"
    by (rule Suc.hyps(1) [OF n])
  have "f \<le> ?g" "?g \<le> selfcheck_oi p (Suc oi) ?g"
    by (rule selfcheck_li_ge, rule selfcheck_oi_ge)
  then have "f < selfcheck_oi p (Suc oi) ?g \<longleftrightarrow> f < ?g \<or> ?g < selfcheck_oi p (Suc oi) ?g"
    by linarith
  also have "\<dots> \<longleftrightarrow> ?row \<or> ?rest"
    by (simp only: row rest)
  also have "\<dots> \<longleftrightarrow>
     (\<exists>i j. oi \<le> i \<and> i < length offsets \<and> j < length lengths \<and>
        pair_mismatch p (offsets ! i) (lengths ! j))"
    using oi by (metis Suc_leD Suc_leI le_neq_implies_less order_refl)
  finally show ?case
    by (simp only: selfcheck_oi_unfold [OF oi])
qed

lemma selfcheck_oi_all:
  "f < selfcheck_oi p 0 f \<longleftrightarrow>
     (\<exists>off\<in>set offsets. \<exists>len\<in>set lengths. pair_mismatch p off len)"
  unfolding selfcheck_oi_gt_iff
proof
  assume "\<exists>i j. 0 \<le> i \<and> i < length offsets \<and> j < length lengths \<and>
        pair_mismatch p (offsets ! i) (lengths ! j)"
  then obtain i j where "i < length offsets" "j < length lengths"
    "pair_mismatch p (offsets ! i) (lengths ! j)"
    by blast
  then show "\<exists>off\<in>set offsets. \<exists>len\<in>set lengths. pair_mismatch p off len"
    using nth_mem by blast
next
  assume "\<exists>off\<in>set offsets. \<exists>len\<in>set lengths. pair_mismatch p off len"
  then obtain off len where "off \<in> set offsets" "len \<in> set lengths"
    and bad: "pair_mismatch p off len"
    by blast
  then obtain i j where "i < length offsets" "offsets ! i = off"
    "j < length lengths" "lengths ! j = len"
    by (meson in_set_conv_nth)
  with bad show "\<exists>i j. 0 \<le> i \<and> i < length offsets \<and> j < length lengths \<and>
        pair_mismatch p (offsets ! i) (lengths ! j)"
    by blast
qed

lemma crc32c_selfcheck_hw:
  assumes x86: "X86_ONLY p" and hw: "g_impl (pthread_once_init p s) = CRC32C_IMPL_HW"
  shows "crc32c_selfcheck p s =
     (if crc32c_hw_body p k_vec_memory 0 strlen_k_vec \<noteq> crc32c_sw k_vec_memory 0 strlen_k_vec
         \<or> (\<exists>off\<in>set offsets. \<exists>len\<in>set lengths. pair_mismatch p off len)
      then (- 1, crc32c_force_software p (pthread_once_init p s))
      else (0, pthread_once_init p s))"
proof -
  define f0 :: int where
    "f0 = (if crc32c_hw_body p k_vec_memory 0 strlen_k_vec
              \<noteq> crc32c_sw k_vec_memory 0 strlen_k_vec then 1 else 0)"
  have "0 \<le> f0" "f0 \<le> selfcheck_oi p 0 f0"
    by (simp add: f0_def, rule selfcheck_oi_ge)
  then have "selfcheck_oi p 0 f0 \<noteq> 0 \<longleftrightarrow> f0 \<noteq> 0 \<or> f0 < selfcheck_oi p 0 f0"
    by linarith
  then have fail: "selfcheck_oi p 0 f0 \<noteq> 0 \<longleftrightarrow>
      crc32c_hw_body p k_vec_memory 0 strlen_k_vec \<noteq> crc32c_sw k_vec_memory 0 strlen_k_vec
      \<or> (\<exists>off\<in>set offsets. \<exists>len\<in>set lengths. pair_mismatch p off len)"
    by (simp add: selfcheck_oi_all) (simp add: f0_def)
  have "crc32c_selfcheck p s =
      (if selfcheck_oi p 0 f0 \<noteq> 0
       then (- 1, crc32c_force_software p (pthread_once_init p s))
       else (0, pthread_once_init p s))"
    using x86 hw by (simp add: crc32c_selfcheck_def Let_def f0_def)
  then show ?thesis
    by (simp only: fail)
qed

lemma crc32c_selfcheck_not_hw:
  "g_impl (pthread_once_init p s) \<noteq> CRC32C_IMPL_HW \<Longrightarrow>
   crc32c_selfcheck p s = (0, if X86_ONLY p then pthread_once_init p s else s)"
  by (simp add: crc32c_selfcheck_def Let_def)

lemma crc32c_sw_k_vec: "crc32c_sw k_vec_memory 0 strlen_k_vec = 0xE3069283"
  by code_simp

lemma faulty_host_k_vec: "crc32c_hw_body faulty_host k_vec_memory 0 strlen_k_vec = 0"
  by code_simp

lemma faulty_host_init:
  "pthread_once_init faulty_host dispatch_init =
     \<lparr>g_crc32c_once = True, g_force_sw = 0, g_impl = CRC32C_IMPL_HW\<rparr>"
  by (simp add: pthread_once_init_def crc32c_init_def dispatch_init_def faulty_host_def
      cpu_has_hw_crc_def X86_ONLY_def)

lemma faulty_host_selfcheck:
  "crc32c_selfcheck faulty_host dispatch_init =
     (- 1, \<lparr>g_crc32c_once = True, g_force_sw = 1, g_impl = CRC32C_IMPL_SW\<rparr>)"
proof -
  have "X86_ONLY faulty_host"
    by (simp add: X86_ONLY_def faulty_host_def)
  moreover have "g_impl (pthread_once_init faulty_host dispatch_init) = CRC32C_IMPL_HW"
    by (simp add: faulty_host_init)
  ultimately show ?thesis
    by (simp add: crc32c_selfcheck_hw crc32c_sw_k_vec faulty_host_k_vec
        crc32c_force_software_state)
qed

lemma step_hw_inv:
  assumes "g_impl s = CRC32C_IMPL_HW \<longrightarrow> g_crc32c_once s \<and> cpu_has_hw_crc p \<noteq> 0"
  shows "g_impl (step p s c) = CRC32C_IMPL_HW \<longrightarrow>
           g_crc32c_once (step p s c) \<and> cpu_has_hw_crc p \<noteq> 0"
proof -
  have once: "g_impl (pthread_once_init p s) = CRC32C_IMPL_HW \<longrightarrow>
      g_crc32c_once (pthread_once_init p s) \<and> cpu_has_hw_crc p \<noteq> 0"
    using assms by (simp add: pthread_once_init_def crc32c_init_impl)
  show ?thesis
  proof (cases c)
    case OpImplName
    with once show ?thesis by (simp add: crc32c_impl_name_def Let_def)
  next
    case OpHwAvailable
    with assms show ?thesis by (simp add: crc32c_hw_available_def)
  next
    case OpForceSoftware
    then show ?thesis by (simp add: crc32c_force_software_state)
  next
    case OpSelfcheck
    show ?thesis
    proof (cases "X86_ONLY p")
      case False
      with assms OpSelfcheck show ?thesis by (simp add: crc32c_selfcheck_def)
    next
      case True
      with once OpSelfcheck show ?thesis
        by (cases "g_impl (pthread_once_init p s) = CRC32C_IMPL_HW")
          (simp_all add: crc32c_selfcheck_hw crc32c_selfcheck_not_hw
            crc32c_force_software_state)
    qed
  next
    case (OpCrc32c m src len)
    with once show ?thesis by (simp add: crc32c_def Let_def)
  qed
qed

lemma reachable_hw:
  "reachable p s \<Longrightarrow>
   g_impl s = CRC32C_IMPL_HW \<longrightarrow> g_crc32c_once s \<and> cpu_has_hw_crc p \<noteq> 0"
proof (induction rule: reachable.induct)
  case reachable_init
  show ?case by (simp add: dispatch_init_def)
next
  case (reachable_step s c)
  then show ?case by (intro step_hw_inv)
qed

lemma cpu_has_hw_crc_x86: "cpu_has_hw_crc p \<noteq> 0 \<Longrightarrow> X86_ONLY p"
  by (simp add: cpu_has_hw_crc_def split: if_splits)

section \<open>Initialization and the ratchet\<close>

text \<open>
  C4. The one-time initialization, run in a state whose guard is still open, leaves the
  selector at Hardware iff no software override is active (the force flag is clear and
  the environment does not say \<open>sw\<close>) and the capability detector answers true, and at
  Software otherwise. The setting \<open>sw\<close> always gives Software; \<open>hw\<close> gives
  Hardware only with the detector's consent and Software without it; any other value,
  or none, leaves the choice to the detector (the force flag being clear).
\<close>

theorem crc32c_init_selector:
  assumes "\<not> g_crc32c_once s"
  shows "(g_impl (pthread_once_init p s) = CRC32C_IMPL_HW \<longleftrightarrow>
            g_force_sw s = 0 \<and> getenv_CRC32C_FORCE p \<noteq> Some ''sw'' \<and> cpu_has_hw_crc p \<noteq> 0)
       \<and> (g_impl (pthread_once_init p s) = CRC32C_IMPL_SW \<longleftrightarrow>
            \<not> (g_force_sw s = 0 \<and> getenv_CRC32C_FORCE p \<noteq> Some ''sw'' \<and> cpu_has_hw_crc p \<noteq> 0))
       \<and> g_crc32c_once (pthread_once_init p s)
       \<and> (getenv_CRC32C_FORCE p = Some ''sw'' \<longrightarrow>
            g_impl (pthread_once_init p s) = CRC32C_IMPL_SW)
       \<and> (getenv_CRC32C_FORCE p = Some ''hw'' \<longrightarrow>
            (g_impl (pthread_once_init p s) = CRC32C_IMPL_HW \<longrightarrow> cpu_has_hw_crc p \<noteq> 0) \<and>
            (cpu_has_hw_crc p = 0 \<longrightarrow> g_impl (pthread_once_init p s) = CRC32C_IMPL_SW) \<and>
            (cpu_has_hw_crc p \<noteq> 0 \<and> g_force_sw s = 0 \<longrightarrow>
               g_impl (pthread_once_init p s) = CRC32C_IMPL_HW))
       \<and> (getenv_CRC32C_FORCE p \<noteq> Some ''sw'' \<and> getenv_CRC32C_FORCE p \<noteq> Some ''hw''
            \<and> g_force_sw s = 0 \<longrightarrow>
            (g_impl (pthread_once_init p s) = CRC32C_IMPL_HW \<longleftrightarrow> cpu_has_hw_crc p \<noteq> 0))"
  using assms by (simp add: pthread_once_init_def crc32c_init_impl)

lemma sse42_host_cpu: "cpu_has_hw_crc (sse42_host\<lparr>getenv_CRC32C_FORCE := e\<rparr>) = 1"
  by (simp add: cpu_has_hw_crc_def X86_ONLY_def sse42_host_def)

lemma no_sse42_cpu:
  "cpu_has_hw_crc (sse42_host\<lparr>builtin_cpu_supports_sse42 := 0, getenv_CRC32C_FORCE := e\<rparr>) = 0"
  by (simp add: cpu_has_hw_crc_def X86_ONLY_def sse42_host_def)

text \<open>
  C4, witness: the fresh process state on a capable processor and on one without
  SSE4.2, under each setting of the environment.
\<close>

theorem crc32c_init_selector_witness:
  "\<not> g_crc32c_once dispatch_init
   \<and> g_impl (pthread_once_init (sse42_host\<lparr>getenv_CRC32C_FORCE := None\<rparr>) dispatch_init)
       = CRC32C_IMPL_HW
   \<and> g_impl (pthread_once_init (sse42_host\<lparr>getenv_CRC32C_FORCE := Some ''sw''\<rparr>) dispatch_init)
       = CRC32C_IMPL_SW
   \<and> g_impl (pthread_once_init (sse42_host\<lparr>getenv_CRC32C_FORCE := Some ''hw''\<rparr>) dispatch_init)
       = CRC32C_IMPL_HW
   \<and> g_impl (pthread_once_init
        (sse42_host\<lparr>builtin_cpu_supports_sse42 := 0, getenv_CRC32C_FORCE := Some ''hw''\<rparr>)
        dispatch_init) = CRC32C_IMPL_SW
   \<and> g_impl (pthread_once_init (sse42_host\<lparr>getenv_CRC32C_FORCE := Some ''auto''\<rparr>) dispatch_init)
       = CRC32C_IMPL_HW
   \<and> g_impl (pthread_once_init
        (sse42_host\<lparr>builtin_cpu_supports_sse42 := 0, getenv_CRC32C_FORCE := None\<rparr>)
        dispatch_init) = CRC32C_IMPL_SW"
proof -
  have fresh: "\<not> g_crc32c_once dispatch_init" and flag: "g_force_sw dispatch_init = 0"
    by (simp_all add: dispatch_init_def)
  show ?thesis
    using fresh flag
      crc32c_init_selector [OF fresh, of "sse42_host\<lparr>getenv_CRC32C_FORCE := None\<rparr>"]
      crc32c_init_selector [OF fresh, of "sse42_host\<lparr>getenv_CRC32C_FORCE := Some ''sw''\<rparr>"]
      crc32c_init_selector [OF fresh, of "sse42_host\<lparr>getenv_CRC32C_FORCE := Some ''hw''\<rparr>"]
      crc32c_init_selector [OF fresh, of
        "sse42_host\<lparr>builtin_cpu_supports_sse42 := 0, getenv_CRC32C_FORCE := Some ''hw''\<rparr>"]
      crc32c_init_selector [OF fresh, of "sse42_host\<lparr>getenv_CRC32C_FORCE := Some ''auto''\<rparr>"]
      crc32c_init_selector [OF fresh, of
        "sse42_host\<lparr>builtin_cpu_supports_sse42 := 0, getenv_CRC32C_FORCE := None\<rparr>"]
    by (simp add: sse42_host_cpu no_sse42_cpu)
qed

text \<open>
  C5. Ratchet: after \<open>crc32c_force_software\<close>, and after a self-check that reported
  failure, every further sequence of public operations leaves the selector at Software
  and the implementation name at \<open>sw\<close>; more generally, an initialized dispatcher
  whose selector is Software never goes to Hardware.
\<close>

theorem software_ratchet:
  "g_impl (run p (crc32c_force_software p s) ops) = CRC32C_IMPL_SW
   \<and> fst (crc32c_impl_name p (run p (crc32c_force_software p s) ops)) = ''sw''
   \<and> (fst (crc32c_selfcheck p s) \<noteq> 0 \<longrightarrow>
        g_impl (run p (snd (crc32c_selfcheck p s)) ops) = CRC32C_IMPL_SW \<and>
        fst (crc32c_impl_name p (run p (snd (crc32c_selfcheck p s)) ops)) = ''sw'')
   \<and> (g_crc32c_once s \<and> g_impl s = CRC32C_IMPL_SW \<longrightarrow>
        g_impl (run p s ops) = CRC32C_IMPL_SW \<and>
        fst (crc32c_impl_name p (run p s ops)) = ''sw'')"
proof -
  have name: "fst (crc32c_impl_name p t) = ''sw''"
    if "g_crc32c_once t \<and> g_impl t = CRC32C_IMPL_SW" for t
    using that by (simp add: crc32c_impl_name_def pthread_once_init_done)
  have forced: "g_crc32c_once (run p (crc32c_force_software p t) ops) \<and>
      g_impl (run p (crc32c_force_software p t) ops) = CRC32C_IMPL_SW" for t
    by (rule run_latched) (simp_all add: crc32c_force_software_state)
  have failed: "snd (crc32c_selfcheck p s) = crc32c_force_software p (pthread_once_init p s)"
    if "fst (crc32c_selfcheck p s) \<noteq> 0"
  proof (cases "X86_ONLY p \<and> g_impl (pthread_once_init p s) = CRC32C_IMPL_HW")
    case True
    with that show ?thesis
      by (auto simp add: crc32c_selfcheck_hw split: if_splits)
  next
    case False
    with that show ?thesis
      by (auto simp add: crc32c_selfcheck_def Let_def)
  qed
  have kept: "g_crc32c_once (run p s ops) \<and> g_impl (run p s ops) = CRC32C_IMPL_SW"
    if "g_crc32c_once s \<and> g_impl s = CRC32C_IMPL_SW"
    using that by (intro run_latched) simp_all
  show ?thesis
    using forced [of s] forced [of "pthread_once_init p s"] name failed kept by simp
qed

text \<open>
  C5, witness: on the faulty processor the self-check of a fresh process fails, and the
  operations that follow stay on the software engine.
\<close>

theorem software_ratchet_witness:
  "fst (crc32c_selfcheck faulty_host dispatch_init) \<noteq> 0
   \<and> g_impl (run faulty_host (snd (crc32c_selfcheck faulty_host dispatch_init))
        [OpImplName, OpSelfcheck, OpCrc32c k_vec_memory 0 9, OpHwAvailable]) = CRC32C_IMPL_SW
   \<and> fst (crc32c_impl_name faulty_host
        (run faulty_host (snd (crc32c_selfcheck faulty_host dispatch_init))
          [OpImplName, OpSelfcheck, OpCrc32c k_vec_memory 0 9, OpHwAvailable])) = ''sw''
   \<and> g_crc32c_once (crc32c_force_software sse42_host dispatch_init)
   \<and> g_impl (crc32c_force_software sse42_host dispatch_init) = CRC32C_IMPL_SW
   \<and> g_impl (run sse42_host (crc32c_force_software sse42_host dispatch_init)
        [OpSelfcheck, OpImplName, OpForceSoftware, OpCrc32c k_vec_memory 0 9]) = CRC32C_IMPL_SW"
  using software_ratchet [of faulty_host dispatch_init
      "[OpImplName, OpSelfcheck, OpCrc32c k_vec_memory 0 9, OpHwAvailable]"]
    software_ratchet [of sse42_host "crc32c_force_software sse42_host dispatch_init"
      "[OpSelfcheck, OpImplName, OpForceSoftware, OpCrc32c k_vec_memory 0 9]"]
  by (simp add: faulty_host_selfcheck crc32c_force_software_state)

section \<open>The CRC32 instruction is the bit-serial algorithm\<close>

text \<open>
  The instruction divides the reflected data, followed by the reflected accumulator, by
  the polynomial, from the top bit down. Seen through \<open>BIT_REFLECT\<close> at the width of
  the dividend, one step of that long division is one shift-and-XOR step from bit 0 up,
  on the register \<open>crc XOR data\<close>: the reflected polynomial \<open>0x105EC76F1\<close> is
  \<open>0x82F63B78\<close> shifted left by one with bit 0 set. So the instruction on \<open>n\<close> bits
  is \<open>n\<close> steps of \<open>shift_xor_int\<close>.
\<close>

lemma bit_BIT_REFLECT: "bit (BIT_REFLECT n x) i \<longleftrightarrow> i < n \<and> bit x (n - Suc i)"
proof (induction n arbitrary: x i)
  case 0
  show ?case by simp
next
  case (Suc n)
  show ?case
  proof (cases "i < n")
    case True
    then have "Suc (n - Suc i) = n - i"
      by simp
    with True show ?thesis
      by (simp add: bit_simps Suc.IH)
  next
    case False
    then show ?thesis
      by (auto simp add: bit_simps Suc.IH)
  qed
qed

declare BIT_REFLECT.simps [simp del]

lemma BIT_REFLECT_xor: "BIT_REFLECT n (a XOR b) = BIT_REFLECT n a XOR BIT_REFLECT n b"
  by (rule bit_eqI) (auto simp add: bit_BIT_REFLECT bit_simps)

lemma BIT_REFLECT_zero: "BIT_REFLECT n 0 = 0"
  by (rule bit_eqI) (simp add: bit_BIT_REFLECT)

lemma drop_bit_BIT_REFLECT: "drop_bit 1 (BIT_REFLECT (Suc n) x) = BIT_REFLECT n x"
  by (rule bit_eqI) (simp add: bit_BIT_REFLECT bit_simps)

lemma BIT_REFLECT_push_bit: "BIT_REFLECT (n + k) (push_bit k x) = BIT_REFLECT n x"
proof (rule bit_eqI)
  fix i
  show "bit (BIT_REFLECT (n + k) (push_bit k x)) i \<longleftrightarrow> bit (BIT_REFLECT n x) i"
  proof (cases "i < n")
    case True
    then have "k \<le> n + k - Suc i" "n + k - Suc i - k = n - Suc i"
      by simp_all
    with True show ?thesis
      by (simp add: bit_BIT_REFLECT bit_simps)
  next
    case False
    then have "\<not> k \<le> n + k - Suc i \<or> \<not> i < n + k"
      by auto
    with False show ?thesis
      by (auto simp add: bit_BIT_REFLECT bit_simps)
  qed
qed

lemma bit_0_BIT_REFLECT: "bit (BIT_REFLECT (Suc n) x) 0 \<longleftrightarrow> bit x n"
  by (simp add: bit_BIT_REFLECT)

lemma reflected_polynomial: "BIT_REFLECT 33 0x11EDC6F41 = 0x105EC76F1"
  by code_simp

lemma shift_xor_int_xor: "shift_xor_int (a XOR b) = shift_xor_int a XOR shift_xor_int b"
  by (rule bit_eqI) (auto simp add: shift_xor_int_def bit_simps)

lemma funpow_shift_xor_int_xor:
  "(shift_xor_int ^^ k) (a XOR b) = (shift_xor_int ^^ k) a XOR (shift_xor_int ^^ k) b"
  by (induction k) (simp_all add: shift_xor_int_xor)

lemma shift_xor_int_push_bit: "shift_xor_int (push_bit (Suc k) y) = push_bit k y"
  by (rule bit_eqI) (simp add: shift_xor_int_def bit_simps del: push_bit_Suc)

lemma funpow_shift_xor_int_push_bit: "(shift_xor_int ^^ k) (push_bit k y) = y"
  by (induction k) (simp_all add: funpow_swap1 shift_xor_int_push_bit del: push_bit_Suc)

declare MOD2.simps [simp del]

lemma MOD2_step:
  "BIT_REFLECT (32 + k) (if bit t (32 + k) then t XOR push_bit k 0x11EDC6F41 else t)
     = shift_xor_int (BIT_REFLECT (Suc (32 + k)) t)"
proof -
  let ?W = "BIT_REFLECT (Suc (32 + k)) t"
  have poly: "BIT_REFLECT (Suc (32 + k)) (push_bit k 0x11EDC6F41) = 0x105EC76F1"
    using BIT_REFLECT_push_bit [of 33 k "0x11EDC6F41"] by (simp add: reflected_polynomial)
  have top: "bit ?W 0 \<longleftrightarrow> bit t (32 + k)"
    by (rule bit_0_BIT_REFLECT)
  have "BIT_REFLECT (32 + k) (if bit t (32 + k) then t XOR push_bit k 0x11EDC6F41 else t)
      = drop_bit 1 (BIT_REFLECT (Suc (32 + k))
          (if bit t (32 + k) then t XOR push_bit k 0x11EDC6F41 else t))"
    by (simp only: drop_bit_BIT_REFLECT)
  also have "\<dots> = drop_bit 1 (?W XOR (if bit ?W 0 then 0x105EC76F1 else 0))"
    by (simp only: top BIT_REFLECT_xor poly if_distrib [of "BIT_REFLECT (Suc (32 + k))"])
      simp
  also have "\<dots> = shift_xor_int ?W"
    by (cases "bit ?W 0") (simp_all add: shift_xor_int_def)
  finally show ?thesis .
qed

lemma MOD2_shift_xor_int:
  "BIT_REFLECT 32 (MOD2 k t) = (shift_xor_int ^^ k) (BIT_REFLECT (32 + k) t)"
proof (induction k arbitrary: t)
  case 0
  show ?case by (simp add: MOD2.simps)
next
  case (Suc k)
  have "BIT_REFLECT 32 (MOD2 (Suc k) t)
      = (shift_xor_int ^^ k)
          (BIT_REFLECT (32 + k) (if bit t (32 + k) then t XOR push_bit k 0x11EDC6F41 else t))"
    by (simp only: MOD2.simps Suc.IH)
  also have "\<dots> = (shift_xor_int ^^ k) (shift_xor_int (BIT_REFLECT (Suc (32 + k)) t))"
    by (simp only: MOD2_step)
  finally show ?case
    by (simp add: funpow_swap1)
qed

lemma TEMP5_reflect:
  assumes h: "take_bit 32 h = h" and v: "take_bit n v = v"
  shows "push_bit 32 (BIT_REFLECT n v) XOR push_bit n (BIT_REFLECT 32 h)
           = BIT_REFLECT (32 + n) (h XOR v)"
proof (rule bit_eqI)
  fix i
  have hb: "bit h j \<Longrightarrow> j < 32" for j
    using h by (metis bit_take_bit_iff)
  have vb: "bit v j \<Longrightarrow> j < n" for j
    using v by (metis bit_take_bit_iff)
  have left: "bit (push_bit 32 (BIT_REFLECT n v)) i \<longleftrightarrow> i < 32 + n \<and> bit v (32 + n - Suc i)"
  proof (cases "32 \<le> i")
    case True
    then have "n - Suc (i - 32) = 32 + n - Suc i" if "i < 32 + n"
      using that by simp
    with True show ?thesis
      by (auto simp add: bit_simps bit_BIT_REFLECT)
  next
    case False
    then have "\<not> 32 + n - Suc i < n"
      by simp
    with False vb show ?thesis
      by (auto simp add: bit_simps)
  qed
  have right: "bit (push_bit n (BIT_REFLECT 32 h)) i \<longleftrightarrow> i < 32 + n \<and> bit h (32 + n - Suc i)"
  proof (cases "n \<le> i")
    case True
    then have "32 - Suc (i - n) = 32 + n - Suc i" if "i < 32 + n"
      using that by simp
    with True show ?thesis
      by (auto simp add: bit_simps bit_BIT_REFLECT)
  next
    case False
    then have "\<not> 32 + n - Suc i < 32"
      by simp
    with False hb show ?thesis
      by (auto simp add: bit_simps)
  qed
  show "bit (push_bit 32 (BIT_REFLECT n v) XOR push_bit n (BIT_REFLECT 32 h)) i
      \<longleftrightarrow> bit (BIT_REFLECT (32 + n) (h XOR v)) i"
    by (simp only: bit_xor_iff left right bit_BIT_REFLECT) auto
qed

lemma sse42_crc32_shift_xor_int:
  assumes "take_bit 32 h = h" and "take_bit n v = v"
  shows "sse42_crc32 n h v = (shift_xor_int ^^ n) (h XOR v)"
proof -
  have "take_bit (32 + n) (h XOR v) = h XOR v"
    by (rule bit_eqI) (metis assms bit_take_bit_iff bit_xor_iff trans_less_add1 trans_less_add2)
  have "sse42_crc32 n h v = BIT_REFLECT 32 (MOD2 n (BIT_REFLECT (32 + n) (h XOR v)))"
    by (simp add: sse42_crc32_def TEMP5_reflect [OF assms])
  also have "\<dots> = (shift_xor_int ^^ n) (BIT_REFLECT (32 + n) (BIT_REFLECT (32 + n) (h XOR v)))"
    by (rule MOD2_shift_xor_int)
  also have "BIT_REFLECT (32 + n) (BIT_REFLECT (32 + n) (h XOR v)) = take_bit (32 + n) (h XOR v)"
    by (rule bit_eqI) (auto simp add: bit_BIT_REFLECT bit_simps)
  finally show ?thesis
    by (simp only: \<open>take_bit (32 + n) (h XOR v) = h XOR v\<close>)
qed

section \<open>Bytes loaded from memory\<close>

text \<open>
  A step is linear for XOR and moves a byte that waits above the register down by one
  bit, so 8 steps per byte with the next byte XORed in afterwards are the same as all the
  steps on the little-endian integer of the bytes. One instruction on an unsigned integer
  loaded by \<open>memcpy\<close> is therefore the byte loop of the software engine on these
  bytes.
\<close>

lemma take_bit_load_int: "take_bit (8 * n) (load_int m s n) = load_int m s n"
proof (induction n arbitrary: s)
  case 0
  show ?case by simp
next
  case (Suc n)
  have "bit (load_int m (Suc s) n) j \<Longrightarrow> j < 8 * n" for j
    using Suc.IH [of "Suc s"] by (metis bit_take_bit_iff)
  moreover have "bit (uint (m s)) j \<Longrightarrow> j < 8" for j
    by (simp add: bit_uint_iff)
  ultimately show ?case
    by (intro bit_eqI) (fastforce simp add: bit_simps)
qed

lemma memcpy_le_load_int: "(memcpy_le m s n :: 'a::len word) = word_of_int (load_int m s n)"
proof (induction n arbitrary: s)
  case 0
  show ?case by simp
next
  case (Suc n)
  show ?case
    by (rule bit_word_eqI) (auto simp add: Suc.IH bit_simps dest: bit_imp_le_length)
qed

lemma uint_memcpy_le:
  "8 * n \<le> LENGTH('a) \<Longrightarrow> uint (memcpy_le m s n :: 'a::len word) = load_int m s n"
proof -
  assume "8 * n \<le> LENGTH('a)"
  then have "take_bit LENGTH('a) (load_int m s n) = load_int m s n"
    by (metis take_bit_load_int take_bit_int_eq_self_iff take_bit_nonnegative
        order.strict_trans2 power_increasing one_le_numeral)
  then show ?thesis
    by (simp add: memcpy_le_load_int uint_word_of_int_eq)
qed

lemma uint_shift_xor: "uint (shift_xor h) = shift_xor_int (uint h)"
proof -
  have "uint (0x82F63B78 :: u32) = 0x82F63B78"
    by simp
  then show ?thesis
    by (simp add: shift_xor_def shift_xor_int_def uint_xor unsigned_drop_bit_eq bit_uint_iff
        bintr_uint)
qed

lemma uint_funpow_shift_xor: "uint ((shift_xor ^^ k) h) = (shift_xor_int ^^ k) (uint h)"
  by (induction k) (simp_all add: uint_shift_xor)

lemma uint_crc32c_byte: "uint (crc32c_byte h b) = (shift_xor_int ^^ 8) (uint h XOR uint b)"
proof -
  have "uint (ucast b :: u32) = uint b"
    by (simp add: unsigned_ucast_eq bintr_uint)
  then show ?thesis
    by (simp add: crc32c_byte_def uint_funpow_shift_xor uint_xor)
qed

lemma buffer_Suc: "buffer m s (Suc n) = m s # buffer m (Suc s) n"
proof -
  have "[s..<s + Suc n] = s # [Suc s..<s + Suc n]"
    by (rule upt_conv_Cons) simp
  then show ?thesis
    unfolding buffer_def by simp
qed

lemma buffer_add: "buffer m s (a + b) = buffer m s a @ buffer m (s + a) b"
proof -
  have "[s..<s + (a + b)] = [s..<s + a] @ [s + a..<s + a + b]"
    by (metis add.assoc upt_add_eq_append le_add1)
  then show ?thesis
    unfolding buffer_def by simp
qed

lemma shift_xor_int_bytes:
  "(shift_xor_int ^^ (8 * n)) (uint h XOR load_int m s n)
     = uint (foldl crc32c_byte h (buffer m s n))"
proof (induction n arbitrary: s h)
  case 0
  show ?case by (simp add: buffer_def)
next
  case (Suc n)
  have split: "8 * Suc n = 8 * n + 8"
    by simp
  have arg: "uint h XOR load_int m s (Suc n)
      = (uint h XOR uint (m s)) XOR push_bit 8 (load_int m (Suc s) n)"
    by (simp add: xor.assoc)
  have "(shift_xor_int ^^ (8 * Suc n)) (uint h XOR load_int m s (Suc n))
      = (shift_xor_int ^^ (8 * n))
          ((shift_xor_int ^^ 8) ((uint h XOR uint (m s)) XOR push_bit 8 (load_int m (Suc s) n)))"
    by (simp only: split funpow_add o_apply arg)
  also have "(shift_xor_int ^^ 8) ((uint h XOR uint (m s)) XOR push_bit 8 (load_int m (Suc s) n))
      = uint (crc32c_byte h (m s)) XOR load_int m (Suc s) n"
    by (simp only: funpow_shift_xor_int_xor funpow_shift_xor_int_push_bit uint_crc32c_byte)
  finally show ?case
    by (simp add: Suc.IH buffer_Suc)
qed

lemma sse42_crc32_bytes:
  fixes h :: u32
  assumes "8 * n \<le> LENGTH('a)"
  shows "sse42_crc32 (8 * n) (uint h) (uint (memcpy_le m s n :: 'a::len word))
           = uint (foldl crc32c_byte h (buffer m s n))"
proof -
  have "take_bit 32 (uint h) = uint h"
    by (simp add: bintr_uint)
  then show ?thesis
    by (simp add: uint_memcpy_le [OF assms] sse42_crc32_shift_xor_int take_bit_load_int
        shift_xor_int_bytes)
qed

lemma sse42_crc32_u8_bytes:
  "sse42_crc32_u8 h (memcpy_le m s 1) = foldl crc32c_byte h (buffer m s 1)"
  using sse42_crc32_bytes [of 1 h m s, where 'a = 8] by (simp add: sse42_crc32_u8_def)

lemma sse42_crc32_u16_bytes:
  "sse42_crc32_u16 h (memcpy_le m s 2) = foldl crc32c_byte h (buffer m s 2)"
  using sse42_crc32_bytes [of 2 h m s, where 'a = 16] by (simp add: sse42_crc32_u16_def)

lemma sse42_crc32_u32_bytes:
  "sse42_crc32_u32 h (memcpy_le m s 4) = foldl crc32c_byte h (buffer m s 4)"
  using sse42_crc32_bytes [of 4 h m s, where 'a = 32] by (simp add: sse42_crc32_u32_def)

lemma sse42_crc32_u64_bytes:
  "sse42_crc32_u64 (ucast h) (memcpy_le m s 8) = ucast (foldl crc32c_byte h (buffer m s 8))"
  for h :: u32
proof -
  have "(ucast (ucast h :: u64) :: u32) = h"
    by (rule ucast_u64_u32)
  then show ?thesis
    using sse42_crc32_bytes [of 8 h m s, where 'a = 64]
    by (simp add: sse42_crc32_u64_def)
qed

section \<open>The hardware engine on a conformant processor\<close>

text \<open>
  With the instruction as documented, the 8-byte loop folds \<open>8 * (len div 8)\<close> bytes and
  the tail steps fold \<open>min len 7\<close> of what they are given. Under \<open>__x86_64__\<close> the
  tail is given \<open>len mod 8\<close> bytes, and the engine is the software engine; under
  \<open>__i386__\<close> the tail is given the whole buffer, and the engine is the software engine
  on its first \<open>min len 7\<close> bytes.
\<close>

lemma foldl_buffer_add:
  "foldl crc32c_byte (foldl crc32c_byte h (buffer m s a)) (buffer m (s + a) b)
     = foldl crc32c_byte h (buffer m s (a + b))"
  by (simp add: buffer_add)

lemma crc32c_hw_tail_conformant:
  assumes "sse42_conformant p"
  shows "crc32c_hw_tail p m s len h = foldl crc32c_byte h (buffer m s (min len 7))"
proof -
  from assms have u32: "mm_crc32_u32 p = sse42_crc32_u32" and u16: "mm_crc32_u16 p = sse42_crc32_u16"
    and u8: "mm_crc32_u8 p = sse42_crc32_u8"
    by (simp_all add: sse42_conformant_def)
  define a :: nat where "a = (if 3 < len then 4 else 0)"
  define b :: nat where "b = (if 1 < len - a then 2 else 0)"
  define c :: nat where "c = (if 0 < len - a - b then 1 else 0)"
  have step1: "(if 3 < len then (s + 4, len - 4, mm_crc32_u32 p h (memcpy_le m s 4))
                else (s, len, h))
      = (s + a, len - a, foldl crc32c_byte h (buffer m s a))"
    by (simp add: a_def u32 sse42_crc32_u32_bytes buffer_def)
  have step2: "(if 1 < len - a
                then (s + a + 2, len - a - 2,
                      mm_crc32_u16 p (foldl crc32c_byte h (buffer m s a)) (memcpy_le m (s + a) 2))
                else (s + a, len - a, foldl crc32c_byte h (buffer m s a)))
      = (s + (a + b), len - a - b, foldl crc32c_byte h (buffer m s (a + b)))"
    by (simp add: b_def u16 sse42_crc32_u16_bytes foldl_buffer_add add.assoc)
  have step3: "(if 0 < len - a - b
                then mm_crc32_u8 p (foldl crc32c_byte h (buffer m s (a + b)))
                       (memcpy_le m (s + (a + b)) 1)
                else foldl crc32c_byte h (buffer m s (a + b)))
      = foldl crc32c_byte h (buffer m s (a + b + c))"
    by (simp add: c_def u8 sse42_crc32_u8_bytes foldl_buffer_add del: memcpy_le.simps One_nat_def)
  have "crc32c_hw_tail p m s len h = foldl crc32c_byte h (buffer m s (a + b + c))"
    unfolding crc32c_hw_tail_def step1 Let_def prod.case step2 step3 ..
  moreover have "a + b + c = min len 7"
    by (auto simp add: a_def b_def c_def)
  ultimately show ?thesis
    by simp
qed

lemma crc32c_hw_while_conformant:
  fixes h :: u32
  assumes "sse42_conformant p"
  shows "crc32c_hw_while p m s len (ucast h) =
     (s + 8 * (len div 8), len mod 8,
      ucast (foldl crc32c_byte h (buffer m s (8 * (len div 8)))))"
proof (induction len arbitrary: s h rule: less_induct)
  case (less len)
  from assms have u64: "mm_crc32_u64 p = sse42_crc32_u64"
    by (simp add: sse42_conformant_def)
  show ?case
  proof (cases "7 < len")
    case False
    then have "len div 8 = 0" "len mod 8 = len"
      by simp_all
    with False show ?thesis
      by (subst crc32c_hw_while.simps) (simp add: buffer_def)
  next
    case True
    then have q: "len div 8 = Suc ((len - 8) div 8)" and r: "len mod 8 = (len - 8) mod 8"
      by (simp_all add: le_div_geq le_mod_geq)
    have "crc32c_hw_while p m s len (ucast h)
        = crc32c_hw_while p m (s + 8) (len - 8)
            (ucast (foldl crc32c_byte h (buffer m s 8)))"
      using True by (subst crc32c_hw_while.simps) (simp add: u64 sse42_crc32_u64_bytes)
    also have "\<dots> = (s + 8 + 8 * ((len - 8) div 8), (len - 8) mod 8,
        ucast (foldl crc32c_byte (foldl crc32c_byte h (buffer m s 8))
          (buffer m (s + 8) (8 * ((len - 8) div 8)))))"
      using True by (intro less.IH) simp
    also have "\<dots> = (s + 8 * (len div 8), len mod 8,
        ucast (foldl crc32c_byte h (buffer m s (8 * (len div 8)))))"
      using buffer_add [of m s 8 "8 * ((len - 8) div 8)"] by (simp add: q r)
    finally show ?thesis .
  qed
qed

lemma crc32c_hw_body_x86_64:
  assumes "sse42_conformant p" and "target p = ARCH_X86_64"
  shows "crc32c_hw_body p m src len = crc32c_sw m src len"
proof -
  have "len = 8 * (len div 8) + len mod 8"
    by simp
  then have "buffer m src len
      = buffer m src (8 * (len div 8)) @ buffer m (src + 8 * (len div 8)) (len mod 8)"
    by (metis buffer_add)
  moreover have "min (len mod 8) 7 = len mod 8"
    by (simp add: min_def)
  ultimately show ?thesis
    by (simp add: crc32c_hw_body_def assms(2) crc32c_hw_while_conformant [OF assms(1)]
        crc32c_hw_tail_conformant [OF assms(1)] ucast_u64_u32 crc32c_sw_def
        crc32c_sw_while_foldl)
qed

lemma crc32c_hw_body_i386:
  assumes "sse42_conformant p" and "target p = ARCH_I386"
  shows "crc32c_hw_body p m src len = crc32c_sw m src (min len 7)"
  by (simp add: crc32c_hw_body_def assms(2) crc32c_hw_tail_conformant [OF assms(1)]
      ucast_u64_u32 crc32c_sw_def crc32c_sw_while_foldl)

lemma sse42_host_conformant: "sse42_conformant sse42_host" "sse42_conformant i386_host"
  by (simp_all add: sse42_conformant_def sse42_host_def i386_host_def)

lemma crc32c_hw_not_x86: "\<not> X86_ONLY p \<Longrightarrow> crc32c_hw p m src len = crc32c_sw m src len"
  by (simp add: crc32c_hw_def)

lemma crc32c_hw_conformant:
  assumes "sse42_conformant p" and "target p \<noteq> ARCH_I386"
  shows "crc32c_hw p m src len = crc32c_sw m src len"
    and "fst (crc32c p s m src len) = crc32c_sw m src len"
proof -
  have body: "crc32c_hw_body p m src len = crc32c_sw m src len" if "X86_ONLY p"
    using that assms by (intro crc32c_hw_body_x86_64) (simp_all add: X86_ONLY_def)
  then show "crc32c_hw p m src len = crc32c_sw m src len"
    by (simp add: crc32c_hw_def)
  from body show "fst (crc32c p s m src len) = crc32c_sw m src len"
    by (simp add: crc32c_def Let_def)
qed

lemma crc32c_sw_k_vec_7: "crc32c_sw k_vec_memory 0 7 = 0x124297EA"
  by code_simp

lemma crc32c_sw_k_vec_8: "crc32c_sw k_vec_memory 0 8 = 0x6087809A"
  by code_simp

lemma i386_host_x86: "X86_ONLY i386_host" "target i386_host = ARCH_I386"
  by (simp_all add: X86_ONLY_def i386_host_def sse42_host_def)

lemma i386_host_init:
  "pthread_once_init i386_host dispatch_init =
     \<lparr>g_crc32c_once = True, g_force_sw = 0, g_impl = CRC32C_IMPL_HW\<rparr>"
  by (simp add: pthread_once_init_def crc32c_init_def dispatch_init_def i386_host_def
      sse42_host_def cpu_has_hw_crc_def X86_ONLY_def)

lemma i386_host_k_vec:
  "crc32c_hw_body i386_host k_vec_memory 0 (length k_vec) = 0x124297EA"
proof -
  have "min (length k_vec) 7 = 7"
    by (simp add: k_vec_def)
  then show ?thesis
    by (simp only: crc32c_hw_body_i386 [OF sse42_host_conformant(2) i386_host_x86(2)]
        crc32c_sw_k_vec_7)
qed

text \<open>
  C2. The hardware engine is meant to agree with the software engine on every input.
  Under the 32-bit x86 build it does not: the 8-byte loop is compiled out and the three
  tail steps consume at most 7 bytes. On the 8 bytes \<open>12345678\<close> the hardware engine
  of a processor with a correct CRC32 instruction returns the checksum of the first 7
  bytes, the software engine that of all 8.
\<close>

theorem i386_hw_engine_stops_after_7_bytes:
  "crc32c_hw i386_host k_vec_memory 0 8 = 0x124297EA
   \<and> crc32c_sw k_vec_memory 0 8 = 0x6087809A"
proof -
  have "crc32c_hw i386_host k_vec_memory 0 8 = crc32c_sw k_vec_memory 0 (min 8 7)"
    by (simp only: crc32c_hw_def i386_host_x86 if_True
        crc32c_hw_body_i386 [OF sse42_host_conformant(2) i386_host_x86(2)])
  then show ?thesis
    by (simp add: crc32c_sw_k_vec_7 crc32c_sw_k_vec_8)
qed

text \<open>
  C3. The known vector \<open>123456789\<close> has the checksum \<open>0xE3069283\<close> under the
  software engine. Under the 32-bit x86 build the hardware engine, and the dispatcher
  that selects it in a fresh process, return \<open>0x124297EA\<close> instead, the checksum of
  \<open>1234567\<close>.
\<close>

theorem i386_known_vector:
  "crc32c_sw k_vec_memory 0 (length k_vec) = 0xE3069283
   \<and> crc32c_hw i386_host k_vec_memory 0 (length k_vec) = 0x124297EA
   \<and> fst (crc32c i386_host dispatch_init k_vec_memory 0 (length k_vec)) = 0x124297EA"
proof -
  note body = i386_host_k_vec
  have sw: "crc32c_sw k_vec_memory 0 (length k_vec) = 0xE3069283"
    using crc32c_sw_k_vec by (simp add: strlen_k_vec_def)
  show ?thesis
    by (simp add: sw body crc32c_hw_def crc32c_def i386_host_x86 i386_host_init)
qed

lemma known_vector_conformant:
  assumes "sse42_conformant p" and "target p \<noteq> ARCH_I386"
  shows "crc32c_hw p k_vec_memory 0 (length k_vec) = 0xE3069283"
    and "fst (crc32c p s k_vec_memory 0 (length k_vec)) = 0xE3069283"
  using crc32c_hw_conformant [OF assms] crc32c_sw_k_vec by (simp_all add: strlen_k_vec_def)


lemma i386_host_selfcheck:
  "crc32c_selfcheck i386_host dispatch_init =
     (- 1, \<lparr>g_crc32c_once = True, g_force_sw = 1, g_impl = CRC32C_IMPL_SW\<rparr>)"
proof -
  have "crc32c_hw_body i386_host k_vec_memory 0 strlen_k_vec = 0x124297EA"
    using i386_host_k_vec by (simp add: strlen_k_vec_def)
  then show ?thesis
    by (simp add: crc32c_selfcheck_hw [OF i386_host_x86(1)] i386_host_init crc32c_sw_k_vec
        crc32c_force_software_state)
qed

section \<open>The engines read only the buffer\<close>

text \<open>
  Both engines depend on the memory only through the \<open>len\<close> bytes from \<open>src\<close> on,
  whatever the intrinsics of the host do; so the contents of an object's memory beyond
  the object play no part in any result above.
\<close>

lemma pattern_memory_byte: "i < sizeof_pattern \<Longrightarrow> pattern_memory i = of_nat (i * 3 + 1)"
  by (simp add: pattern_memory_def object_memory_def pattern_def)

lemma unat_pattern_memory:
  "i < sizeof_pattern \<Longrightarrow> unat (pattern_memory i) = (i * 3 + 1) mod 256"
  using unat_of_nat [of "i * 3 + 1", where 'a = 8] by (simp add: pattern_memory_byte)

lemma k_vec_memory_buffer: "buffer k_vec_memory 0 (length k_vec) = map of_char k_vec"
  by (simp add: buffer_def k_vec_memory_def object_memory_def k_vec_def upt_rec)

lemma memcpy_le_cong:
  "(\<And>a. s \<le> a \<Longrightarrow> a < s + n \<Longrightarrow> m a = m' a) \<Longrightarrow>
   (memcpy_le m s n :: 'a::len word) = memcpy_le m' s n"
proof (induction n arbitrary: s)
  case 0
  show ?case by simp
next
  case (Suc n)
  have "(memcpy_le m (Suc s) n :: 'a word) = memcpy_le m' (Suc s) n"
    by (rule Suc.IH) (simp add: Suc.prems)
  moreover have "m s = m' s"
    by (rule Suc.prems) simp_all
  ultimately show ?case
    by simp
qed

lemma crc32c_sw_cong:
  assumes "\<And>a. src \<le> a \<Longrightarrow> a < src + len \<Longrightarrow> m a = m' a"
  shows "crc32c_sw m src len = crc32c_sw m' src len"
proof -
  have "buffer m src len = buffer m' src len"
    using assms by (simp add: buffer_def)
  then show ?thesis
    by (simp add: crc32c_sw_def crc32c_sw_while_foldl)
qed

lemma crc32c_hw_tail_cong:
  assumes "\<And>a. s \<le> a \<Longrightarrow> a < s + len \<Longrightarrow> m a = m' a"
  shows "crc32c_hw_tail p m s len h = crc32c_hw_tail p m' s len h"
proof -
  have u32: "(memcpy_le m t n :: u32) = memcpy_le m' t n" if "s \<le> t" "t + n \<le> s + len" for t n
    using that by (intro memcpy_le_cong assms) simp_all
  have u16: "(memcpy_le m t n :: u16) = memcpy_le m' t n" if "s \<le> t" "t + n \<le> s + len" for t n
    using that by (intro memcpy_le_cong assms) simp_all
  have u8: "(memcpy_le m t n :: u8) = memcpy_le m' t n" if "s \<le> t" "t + n \<le> s + len" for t n
    using that by (intro memcpy_le_cong assms) simp_all
  show ?thesis
    by (simp add: crc32c_hw_tail_def u32 u16 u8 del: memcpy_le.simps One_nat_def)
qed

lemma crc32c_hw_while_cong:
  "(\<And>a. s \<le> a \<Longrightarrow> a < s + len \<Longrightarrow> m a = m' a) \<Longrightarrow>
   crc32c_hw_while p m s len hh = crc32c_hw_while p m' s len hh"
proof (induction len arbitrary: s hh rule: less_induct)
  case (less len)
  show ?case
  proof (cases "7 < len")
    case False
    then show ?thesis
      by (simp add: crc32c_hw_while_short)
  next
    case True
    have v: "(memcpy_le m s 8 :: u64) = memcpy_le m' s 8"
      using True by (intro memcpy_le_cong less.prems) simp_all
    have "crc32c_hw_while p m (s + 8) (len - 8) (mm_crc32_u64 p hh (memcpy_le m' s 8))
        = crc32c_hw_while p m' (s + 8) (len - 8) (mm_crc32_u64 p hh (memcpy_le m' s 8))"
      using True by (intro less.IH less.prems) simp_all
    with True show ?thesis
      by (subst (1 2) crc32c_hw_while.simps) (simp add: v)
  qed
qed

lemma crc32c_hw_while_position:
  "fst (crc32c_hw_while p m s len hh) = s + 8 * (len div 8) \<and>
   fst (snd (crc32c_hw_while p m s len hh)) = len mod 8"
proof (induction len arbitrary: s hh rule: less_induct)
  case (less len)
  show ?case
  proof (cases "7 < len")
    case False
    then show ?thesis
      by (simp add: crc32c_hw_while_short)
  next
    case True
    then have "len div 8 = Suc ((len - 8) div 8)" "len mod 8 = (len - 8) mod 8"
      by (simp_all add: le_div_geq le_mod_geq)
    moreover from True have "len - 8 < len"
      by simp
    ultimately show ?thesis
      using True by (subst (1 2) crc32c_hw_while.simps) (simp add: less.IH)
  qed
qed

lemma crc32c_hw_body_cong:
  assumes "\<And>a. src \<le> a \<Longrightarrow> a < src + len \<Longrightarrow> m a = m' a"
  shows "crc32c_hw_body p m src len = crc32c_hw_body p m' src len"
proof (cases "target p = ARCH_X86_64")
  case False
  then show ?thesis
    using crc32c_hw_tail_cong [of src len m m', OF assms]
    by (simp add: crc32c_hw_body_def)
next
  case True
  obtain s1 len1 hh where w: "crc32c_hw_while p m src len (ucast (NOT 0 :: u32)) = (s1, len1, hh)"
    by (cases "crc32c_hw_while p m src len (ucast (NOT 0 :: u32))") auto
  with crc32c_hw_while_position [of p m src len "ucast (NOT 0 :: u32)"]
  have pos: "s1 = src + 8 * (len div 8)" "len1 = len mod 8"
    by simp_all
  have w': "crc32c_hw_while p m' src len (ucast (NOT 0 :: u32)) = (s1, len1, hh)"
    using crc32c_hw_while_cong [of src len m m', OF assms] w by simp
  have "s1 + len1 = src + len"
    by (simp add: pos)
  then have "crc32c_hw_tail p m s1 len1 (ucast hh) = crc32c_hw_tail p m' s1 len1 (ucast hh)"
    by (intro crc32c_hw_tail_cong assms) (simp_all add: pos)
  with True w w' show ?thesis
    by (simp add: crc32c_hw_body_def)
qed

section \<open>The self-check\<close>

lemma step_once_or_same: "g_crc32c_once (step p s c) \<or> step p s c = s"
proof (cases c)
  case OpImplName
  then show ?thesis by (simp add: crc32c_impl_name_def Let_def pthread_once_init_once)
next
  case OpHwAvailable
  then show ?thesis by (simp add: crc32c_hw_available_def)
next
  case OpForceSoftware
  then show ?thesis by (simp add: crc32c_force_software_state)
next
  case OpSelfcheck
  show ?thesis
  proof (cases "X86_ONLY p")
    case False
    with OpSelfcheck show ?thesis by (simp add: crc32c_selfcheck_def)
  next
    case True
    with OpSelfcheck show ?thesis
      by (cases "g_impl (pthread_once_init p s) = CRC32C_IMPL_HW")
        (simp_all add: crc32c_selfcheck_hw crc32c_selfcheck_not_hw
          crc32c_force_software_state pthread_once_init_once)
  qed
next
  case (OpCrc32c m src len)
  then show ?thesis by (simp add: crc32c_def Let_def pthread_once_init_once)
qed

lemma step_once: "g_crc32c_once s \<Longrightarrow> g_crc32c_once (step p s c)"
  using step_once_or_same [of p s c] by auto

lemma reachable_fresh: "reachable p s \<Longrightarrow> g_crc32c_once s \<or> s = dispatch_init"
proof (induction rule: reachable.induct)
  case reachable_init
  show ?case by simp
next
  case (reachable_step s c)
  with step_once_or_same [of p s c] step_once [of s p c] show ?case
    by auto
qed





section \<open>The self-check with nothing to verify\<close>

text \<open>
  C7, as amended. Whenever the selector that the self-check reads, after it has passed the
  initialization guard, is not Hardware, the self-check returns 0 at once. The dispatch
  state is left unchanged when the initialization has already run, and on a build that
  is not x86 always; a first call on an x86 build leaves the state as the one-time
  initialization produced it. In every reachable state the selector is unchanged.
\<close>

theorem selfcheck_nothing_to_check:
  "(g_impl (pthread_once_init p s) \<noteq> CRC32C_IMPL_HW \<longrightarrow>
      crc32c_selfcheck p s = (0, if X86_ONLY p then pthread_once_init p s else s))
   \<and> (g_crc32c_once s \<and> g_impl s \<noteq> CRC32C_IMPL_HW \<longrightarrow> crc32c_selfcheck p s = (0, s))
   \<and> (\<not> X86_ONLY p \<longrightarrow> crc32c_selfcheck p s = (0, s))
   \<and> (reachable p s \<and> g_impl (pthread_once_init p s) \<noteq> CRC32C_IMPL_HW \<longrightarrow>
        g_impl (snd (crc32c_selfcheck p s)) = g_impl s)"
proof -
  have kept: "g_impl (snd (crc32c_selfcheck p s)) = g_impl s"
    if r: "reachable p s" and n: "g_impl (pthread_once_init p s) \<noteq> CRC32C_IMPL_HW"
  proof (cases "g_crc32c_once s")
    case True
    with n show ?thesis
      by (simp add: crc32c_selfcheck_not_hw pthread_once_init_done)
  next
    case False
    with reachable_fresh [OF r] have s: "s = dispatch_init"
      by simp
    from False n have "g_impl (pthread_once_init p s) = CRC32C_IMPL_SW"
      by (simp add: pthread_once_init_def crc32c_init_impl split: if_splits)
    with n show ?thesis
      by (simp add: crc32c_selfcheck_not_hw) (simp add: s dispatch_init_def)
  qed
  have other: "crc32c_selfcheck p s = (0, s)" if "\<not> X86_ONLY p"
    using that by (simp add: crc32c_selfcheck_def)
  show ?thesis
    using kept other by (simp add: crc32c_selfcheck_not_hw pthread_once_init_done)
qed

lemma env_sw_init:
  "pthread_once_init (sse42_host\<lparr>getenv_CRC32C_FORCE := Some ''sw''\<rparr>) dispatch_init
      = \<lparr>g_crc32c_once = True, g_force_sw = 1, g_impl = CRC32C_IMPL_SW\<rparr>"
  by (simp add: pthread_once_init_def crc32c_init_def dispatch_init_def)

lemma env_sw_selfcheck:
  "crc32c_selfcheck (sse42_host\<lparr>getenv_CRC32C_FORCE := Some ''sw''\<rparr>) dispatch_init
      = (0, \<lparr>g_crc32c_once = True, g_force_sw = 1, g_impl = CRC32C_IMPL_SW\<rparr>)"
proof -
  have "X86_ONLY (sse42_host\<lparr>getenv_CRC32C_FORCE := Some ''sw''\<rparr>)"
    by (simp add: X86_ONLY_def sse42_host_def)
  then show ?thesis
    by (simp add: crc32c_selfcheck_not_hw env_sw_init)
qed

text \<open>
  C7, witness: a fresh process under the setting \<open>sw\<close>, a state after forcing
  software, and a build that is not x86.
\<close>

theorem selfcheck_nothing_to_check_witness:
  "g_impl (pthread_once_init (sse42_host\<lparr>getenv_CRC32C_FORCE := Some ''sw''\<rparr>) dispatch_init)
       \<noteq> CRC32C_IMPL_HW
   \<and> reachable (sse42_host\<lparr>getenv_CRC32C_FORCE := Some ''sw''\<rparr>) dispatch_init
   \<and> crc32c_selfcheck (sse42_host\<lparr>getenv_CRC32C_FORCE := Some ''sw''\<rparr>) dispatch_init
       = (0, \<lparr>g_crc32c_once = True, g_force_sw = 1, g_impl = CRC32C_IMPL_SW\<rparr>)
   \<and> g_impl (snd (crc32c_selfcheck (sse42_host\<lparr>getenv_CRC32C_FORCE := Some ''sw''\<rparr>)
        dispatch_init)) = g_impl dispatch_init
   \<and> g_crc32c_once (crc32c_force_software sse42_host dispatch_init)
   \<and> g_impl (crc32c_force_software sse42_host dispatch_init) \<noteq> CRC32C_IMPL_HW
   \<and> crc32c_selfcheck sse42_host (crc32c_force_software sse42_host dispatch_init)
       = (0, crc32c_force_software sse42_host dispatch_init)
   \<and> \<not> X86_ONLY (sse42_host\<lparr>target := ARCH_OTHER\<rparr>)
   \<and> crc32c_selfcheck (sse42_host\<lparr>target := ARCH_OTHER\<rparr>) dispatch_init = (0, dispatch_init)"
proof -
  have x86: "X86_ONLY (sse42_host\<lparr>getenv_CRC32C_FORCE := Some ''sw''\<rparr>)"
    and other: "\<not> X86_ONLY (sse42_host\<lparr>target := ARCH_OTHER\<rparr>)"
    by (simp_all add: X86_ONLY_def sse42_host_def)
  have fresh: "reachable (sse42_host\<lparr>getenv_CRC32C_FORCE := Some ''sw''\<rparr>) dispatch_init"
    by (rule reachable_init)
  have sel: "g_impl dispatch_init = CRC32C_IMPL_SW"
    by (simp add: dispatch_init_def)
  show ?thesis
    using selfcheck_nothing_to_check
        [of "sse42_host\<lparr>getenv_CRC32C_FORCE := Some ''sw''\<rparr>" dispatch_init]
      selfcheck_nothing_to_check
        [of sse42_host "crc32c_force_software sse42_host dispatch_init"]
      selfcheck_nothing_to_check
        [of "sse42_host\<lparr>target := ARCH_OTHER\<rparr>" dispatch_init]
      fresh other
    by (simp add: env_sw_init x86 crc32c_force_software_state sel)
qed

text \<open>
  C7 as first stated fails for a fresh process under the setting \<open>sw\<close>: the selector
  is not Hardware before the call nor after the guard, the self-check returns 0, and the
  force flag, clear before the call, is set after it.
\<close>

theorem selfcheck_before_init_counterexample:
  "g_impl dispatch_init \<noteq> CRC32C_IMPL_HW
   \<and> g_impl (pthread_once_init (sse42_host\<lparr>getenv_CRC32C_FORCE := Some ''sw''\<rparr>) dispatch_init)
       \<noteq> CRC32C_IMPL_HW
   \<and> fst (crc32c_selfcheck (sse42_host\<lparr>getenv_CRC32C_FORCE := Some ''sw''\<rparr>) dispatch_init) = 0
   \<and> g_force_sw dispatch_init = 0
   \<and> g_force_sw (snd (crc32c_selfcheck (sse42_host\<lparr>getenv_CRC32C_FORCE := Some ''sw''\<rparr>)
        dispatch_init)) = 1"
  unfolding env_sw_selfcheck env_sw_init by (simp add: dispatch_init_def)

end
